theory Spec2Isabelle
  imports Main "HOL-Library.Word"
begin

section \<open>JavaScript strings\<close>

text \<open>
  A JavaScript string is a sequence of UTF-16 code units; \<open>length\<close>, \<open>charAt\<close>,
  \<open>substring\<close> and the character classes of a regular expression without the \<open>u\<close> flag
  all count code units. \<open>ascii\<close> writes an ASCII literal as such a sequence.
\<close>

type_synonym jchar = "16 word"
type_synonym jstring = "jchar list"

definition ascii :: "string \<Rightarrow> jstring" where
  "ascii s = map of_char s"

definition space :: jstring where
  "space = [0x20]"

definition newline :: jchar where
  "newline = 0xA"

text \<open>
  \<open>String.prototype.trim\<close> removes leading and trailing WhiteSpace and LineTerminator
  code units (ECMAScript: TAB, LF, VT, FF, CR, SP, NBSP, the Unicode space separators,
  LS, PS and the byte order mark).
\<close>

definition is_ws :: "jchar \<Rightarrow> bool" where
  "is_ws c \<longleftrightarrow> c \<in> set [0x9, 0xA, 0xB, 0xC, 0xD, 0x20, 0xA0, 0x1680,
     0x2000, 0x2001, 0x2002, 0x2003, 0x2004, 0x2005, 0x2006, 0x2007, 0x2008, 0x2009, 0x200A,
     0x2028, 0x2029, 0x202F, 0x205F, 0x3000, 0xFEFF]"

definition trim :: "jstring \<Rightarrow> jstring" where
  "trim s = rev (dropWhile is_ws (rev (dropWhile is_ws s)))"

text \<open>\<open>text.charAt(i)\<close>: the one-unit string at index \<open>i\<close>, the empty string out of range.\<close>

definition charAt :: "jstring \<Rightarrow> nat \<Rightarrow> jstring" where
  "charAt text i = (if i < length text then [text ! i] else [])"

text \<open>\<open>Array.prototype.join\<close> and, for reading a display back, \<open>String.prototype.split\<close>
  on a one-unit separator (\<open>"".split("\n")\<close> is \<open>[""]\<close>).\<close>

fun join :: "jstring \<Rightarrow> jstring list \<Rightarrow> jstring" where
  "join sep [] = []"
| "join sep [x] = x"
| "join sep (x # y # ys) = x @ sep @ join sep (y # ys)"

fun split_on :: "jchar \<Rightarrow> jstring \<Rightarrow> jstring list" where
  "split_on c [] = [[]]"
| "split_on c (x # xs) =
     (if x = c then [] # split_on c xs
      else (case split_on c xs of [] \<Rightarrow> [[x]] | l # ls \<Rightarrow> (x # l) # ls))"

section \<open>ChineseUtils: word boundaries\<close>

text \<open>
  \<open>isChinese(text)\<close> tests for a code unit from U+4E00 to U+9FA5.
  \<open>jieba.cut\<close> belongs to the package \<open>@node-rs/jieba\<close>, which is not part of the
  repository: the segmenter is the parameter \<open>seg\<close> of everything below.
\<close>

type_synonym segmenter = "jstring \<Rightarrow> jstring list"

definition isChineseText :: "jstring \<Rightarrow> bool" where
  "isChineseText text = list_ex (\<lambda>c. 0x4e00 \<le> c \<and> c \<le> 0x9fa5) text"

text \<open>The \<open>for (const word of words)\<close> loop of \<open>findChineseWordBoundary\<close>.\<close>

fun word_scan :: "jstring list \<Rightarrow> nat \<Rightarrow> nat \<Rightarrow> nat" where
  "word_scan [] position currentLength = position"
| "word_scan (word # words) position currentLength =
     (if currentLength + length word > position then currentLength
      else word_scan words position (currentLength + length word))"

definition findChineseWordBoundary :: "segmenter \<Rightarrow> jstring \<Rightarrow> nat \<Rightarrow> nat" where
  "findChineseWordBoundary seg text position =
     (if \<not> isChineseText text then position else word_scan (seg text) position 0)"

text \<open>
  A segmenter for evaluating at concrete texts: a maximal run of ASCII letters and digits
  is one word and every other code unit is a word of its own, which is how jieba cuts a
  Latin word or a number next to a Chinese character. (jieba also joins Chinese
  characters into words of its dictionary; the general results below are about every
  segmenter and need the first word only.)
\<close>

definition is_alnum :: "jchar \<Rightarrow> bool" where
  "is_alnum c \<longleftrightarrow> (0x30 \<le> c \<and> c \<le> 0x39) \<or> (0x41 \<le> c \<and> c \<le> 0x5A) \<or> (0x61 \<le> c \<and> c \<le> 0x7A)"

fun cut_runs :: "jstring \<Rightarrow> jstring list" where
  "cut_runs [] = []"
| "cut_runs (c # cs) =
     (if is_alnum c then
        (case cut_runs cs of
           [] \<Rightarrow> [[c]]
         | w # ws \<Rightarrow> (if w \<noteq> [] \<and> is_alnum (hd w) then (c # w) # ws else [c] # w # ws))
      else [c] # cut_runs cs)"

section \<open>TranscriptProcessor\<close>

text \<open>
  The fields of the class. The two sizes and the capacity are counts: the application
  passes a width from the table of \<open>convertLineWidth\<close>, a number of lines that is at
  least 1 and the constant 30. \<open>appendToLines\<close> and \<open>getTranscript\<close> have no caller and
  are left out; nothing else reads or writes \<open>lines\<close> but \<open>clear\<close>.
\<close>

record processor =
  maxCharsPerLine :: nat
  maxLines :: nat
  lines :: "jstring list"
  partialText :: jstring
  lastUserTranscript :: jstring
  finalTranscriptHistory :: "jstring list"
  maxFinalTranscripts :: nat
  isChinese :: bool
  currentDisplayLines :: "jstring list"

definition new_processor :: "nat \<Rightarrow> nat \<Rightarrow> nat \<Rightarrow> bool \<Rightarrow> processor" where
  "new_processor w l m c =
     \<lparr>maxCharsPerLine = w, maxLines = l, lines = [], partialText = [],
      lastUserTranscript = [], finalTranscriptHistory = [], maxFinalTranscripts = m,
      isChinese = c, currentDisplayLines = []\<rparr>"

subsection \<open>wrapText\<close>

text \<open>\<open>while (splitIndex > 0 && text.charAt(splitIndex) !== " ") splitIndex--\<close>\<close>

fun back_to_space :: "jstring \<Rightarrow> nat \<Rightarrow> nat" where
  "back_to_space text 0 = 0"
| "back_to_space text (Suc i) =
     (if charAt text (Suc i) \<noteq> space then back_to_space text i else Suc i)"

text \<open>The split index of one iteration, for a text longer than the line.\<close>

definition splitIndex :: "segmenter \<Rightarrow> bool \<Rightarrow> jstring \<Rightarrow> nat \<Rightarrow> nat" where
  "splitIndex seg chinese text maxLineLength =
     (if chinese then findChineseWordBoundary seg text maxLineLength
      else (let i = back_to_space text maxLineLength
            in if i = 0 then maxLineLength else i))"

text \<open>
  The \<open>while (text !== "")\<close> loop with its two variables \<open>result\<close> and \<open>text\<close>.
  The loop need not end, so the function is partial: \<open>None\<close> is a run that never returns.
\<close>

partial_function (option) wrapText_loop ::
  "segmenter \<Rightarrow> bool \<Rightarrow> nat \<Rightarrow> jstring list \<Rightarrow> jstring \<Rightarrow> jstring list option" where
  "wrapText_loop seg chinese maxLineLength result text =
     (if text = [] then Some result
      else if length text \<le> maxLineLength then Some (result @ [text])
      else wrapText_loop seg chinese maxLineLength
             (result @ [trim (take (splitIndex seg chinese text maxLineLength) text)])
             (trim (drop (splitIndex seg chinese text maxLineLength) text)))"

definition wrapText :: "segmenter \<Rightarrow> bool \<Rightarrow> jstring \<Rightarrow> nat \<Rightarrow> jstring list option" where
  "wrapText seg chinese text maxLineLength = wrapText_loop seg chinese maxLineLength [] text"

subsection \<open>History\<close>

text \<open>\<open>while (a.length > n) a.shift()\<close> and \<open>while (a.length < n) a.push("")\<close>\<close>

function shift_excess :: "nat \<Rightarrow> 'a list \<Rightarrow> 'a list" where
  "shift_excess n xs = (if length xs > n then shift_excess n (tl xs) else xs)"
  by pat_completeness auto
termination
  by (relation "measure (\<lambda>(n, xs). length xs)") auto

function pad_lines :: "nat \<Rightarrow> jstring list \<Rightarrow> jstring list" where
  "pad_lines n xs = (if length xs < n then pad_lines n (xs @ [[]]) else xs)"
  by pat_completeness auto
termination
  by (relation "measure (\<lambda>(n, xs). n - length xs)") auto

definition addToTranscriptHistory :: "processor \<Rightarrow> jstring \<Rightarrow> processor" where
  "addToTranscriptHistory p transcript =
     (if trim transcript = [] then p
      else p\<lparr>finalTranscriptHistory :=
                shift_excess (maxFinalTranscripts p) (finalTranscriptHistory p @ [transcript])\<rparr>)"

definition getCombinedTranscriptHistory :: "processor \<Rightarrow> jstring" where
  "getCombinedTranscriptHistory p = join space (finalTranscriptHistory p)"

definition setMaxFinalTranscripts :: "processor \<Rightarrow> nat \<Rightarrow> processor" where
  "setMaxFinalTranscripts p n =
     p\<lparr>maxFinalTranscripts := n,
       finalTranscriptHistory := shift_excess n (finalTranscriptHistory p)\<rparr>"

definition clear :: "processor \<Rightarrow> processor" where
  "clear p = p\<lparr>lines := [], partialText := [], finalTranscriptHistory := []\<rparr>"

subsection \<open>processString\<close>

text \<open>
  The argument is typed \<open>string | null\<close>, and the caller passes a field of an \<open>any\<close>
  value, so \<open>undefined\<close> can arrive at run time; \<open>undefined.trim()\<close> throws a TypeError
  before any field is written.
\<close>

datatype jsval = Null | Undefined | Str jstring

datatype error = TypeError

text \<open>\<open>newText === null ? "" : newText.trim()\<close>, for an argument that is not \<open>undefined\<close>.\<close>

definition text_of :: "jsval \<Rightarrow> jstring" where
  "text_of v = (case v of Str s \<Rightarrow> trim s | _ \<Rightarrow> [])"

definition fit_lines :: "nat \<Rightarrow> jstring list \<Rightarrow> jstring list" where
  "fit_lines n ls = shift_excess n (pad_lines n ls)"

definition processString ::
  "segmenter \<Rightarrow> processor \<Rightarrow> jsval \<Rightarrow> bool \<Rightarrow> (error + processor \<times> jstring) option" where
  "processString seg p newText isFinal =
     (case newText of
        Undefined \<Rightarrow> Some (Inl TypeError)
      | _ \<Rightarrow>
        let t = text_of newText in
        if \<not> isFinal then
          let p1 = p\<lparr>partialText := t, lastUserTranscript := t\<rparr>;
              combinedText = getCombinedTranscriptHistory p1 @ space @ t
          in (case wrapText seg (isChinese p1) combinedText (maxCharsPerLine p1) of
                None \<Rightarrow> None
              | Some w \<Rightarrow>
                  let d = fit_lines (maxLines p1) w
                  in Some (Inr (p1\<lparr>currentDisplayLines := d\<rparr>, join [newline] d)))
        else
          let p1 = addToTranscriptHistory (p\<lparr>partialText := []\<rparr>) t;
              combinedText = getCombinedTranscriptHistory p1
          in (case wrapText seg (isChinese p1) combinedText (maxCharsPerLine p1) of
                None \<Rightarrow> None
              | Some w \<Rightarrow>
                  let d = fit_lines (maxLines p1) w
                  in Some (Inr (p1\<lparr>currentDisplayLines := d\<rparr>, join [newline] d))))"

text \<open>
  The processor states a session can be in: what the constructor, \<open>processString\<close>
  (when it returns) and \<open>clear\<close> produce. These are the calls the application makes;
  a call that throws leaves the fields as they were.
\<close>

inductive reachable :: "segmenter \<Rightarrow> processor \<Rightarrow> bool" for seg :: segmenter where
  constructed: "reachable seg (new_processor w l m c)"
| processed: "reachable seg p \<Longrightarrow> processString seg p newText isFinal = Some (Inr (p', out))
     \<Longrightarrow> reachable seg p'"
| cleared: "reachable seg p \<Longrightarrow> reachable seg (clear p)"

section \<open>The application: index.ts\<close>

text \<open>
  What the display sink receives: one \<open>session.layouts.showTextWall(text, {durationMs})\<close>
  call, with \<open>None\<close> for an undefined duration.
\<close>

datatype emission = ShowTextWall jstring "int option"

text \<open>\<open>text.replace(/^[.,;:!?...]+/, '').trim()\<close>, the class holding the six ASCII marks
  and their fullwidth forms U+3002, U+FF0C, U+FF1B, U+FF1A, U+FF01, U+FF1F.\<close>

definition is_lead_punct :: "jchar \<Rightarrow> bool" where
  "is_lead_punct c \<longleftrightarrow> c \<in> set [0x2E, 0x2C, 0x3B, 0x3A, 0x21, 0x3F,
     0x3002, 0xFF0C, 0xFF1B, 0xFF1A, 0xFF01, 0xFF1F]"

definition cleanTranscriptText :: "jstring \<Rightarrow> jstring" where
  "cleanTranscriptText s = trim (dropWhile is_lead_punct s)"

definition showTranscriptsToUser :: "jstring \<Rightarrow> bool \<Rightarrow> emission" where
  "showTranscriptsToUser transcript isFinal =
     ShowTextWall (cleanTranscriptText transcript) (if isFinal then Some 20000 else None)"

subsection \<open>Debouncing\<close>

text \<open>
  Times are the milliseconds \<open>Date.now()\<close> returns. \<open>timer\<close> is the pending timeout, if
  any: the time it is due and the transcript its callback has captured. A timeout that
  has fired or was cleared is \<open>None\<close> (clearing such a handle does nothing).
\<close>

record debouncer =
  lastSentTime :: int
  timer :: "(int \<times> jstring) option"

definition debounceDelay :: int where
  "debounceDelay = 400"

definition debounceAndShowTranscript ::
  "int \<Rightarrow> debouncer option \<Rightarrow> jstring \<Rightarrow> bool \<Rightarrow> debouncer \<times> emission list" where
  "debounceAndShowTranscript now entry transcript isFinal =
     (let debouncer0 = (case entry of None \<Rightarrow> \<lparr>lastSentTime = 0, timer = None\<rparr> | Some d \<Rightarrow> d);
          d = debouncer0\<lparr>timer := None\<rparr>
      in if isFinal then (d\<lparr>lastSentTime := now\<rparr>, [showTranscriptsToUser transcript isFinal])
         else if now - lastSentTime d \<ge> debounceDelay
           then (d\<lparr>lastSentTime := now\<rparr>, [showTranscriptsToUser transcript False])
         else (d\<lparr>timer := Some (now + debounceDelay, transcript)\<rparr>, []))"

text \<open>
  The callback of the timeout, for the run-time system at time \<open>now\<close>: a timeout that is
  not yet due does not run.
\<close>

definition debounce_timer_fired :: "int \<Rightarrow> debouncer \<Rightarrow> debouncer \<times> emission list" where
  "debounce_timer_fired now d =
     (case timer d of
        None \<Rightarrow> (d, [])
      | Some (due, transcript) \<Rightarrow>
          if now < due then (d, [])
          else (d\<lparr>lastSentTime := now, timer := None\<rparr>, [showTranscriptsToUser transcript False]))"

subsection \<open>Inactivity\<close>

text \<open>The callback of the inactivity timeout, on the user's entry of
  \<open>userTranscriptProcessors\<close>.\<close>

definition inactivity_timer_fired :: "processor option \<Rightarrow> processor option \<times> emission list" where
  "inactivity_timer_fired entry =
     (case entry of
        None \<Rightarrow> (None, [])
      | Some transcriptProcessor \<Rightarrow>
          (Some (clear transcriptProcessor), [ShowTextWall [] (Some 1000)]))"

subsection \<open>Settings\<close>

text \<open>
  \<open>convertLineWidth\<close> is called on \<open>lineWidth.toString()\<close>, so its argument is a string
  and the switch on \<open>width.toLowerCase()\<close> decides. The labels are ASCII without the
  letter k, so lower-casing A to Z is all of \<open>toLowerCase\<close> that can make a label match.
\<close>

definition toLowerCase :: "jstring \<Rightarrow> jstring" where
  "toLowerCase s = map (\<lambda>c. if 0x41 \<le> c \<and> c \<le> 0x5A then c + 0x20 else c) s"

definition convertLineWidth :: "jstring \<Rightarrow> bool \<Rightarrow> nat" where
  "convertLineWidth width isHanzi =
     (let l = toLowerCase width in
      if \<not> isHanzi then
        (if l = ascii ''very narrow'' then 21
         else if l = ascii ''narrow'' then 30
         else if l = ascii ''medium'' then 38
         else if l = ascii ''wide'' then 44
         else if l = ascii ''very wide'' then 52
         else 45)
      else
        (if l = ascii ''very narrow'' then 7
         else if l = ascii ''narrow'' then 10
         else if l = ascii ''medium'' then 14
         else if l = ascii ''wide'' then 18
         else if l = ascii ''very wide'' then 21
         else 14))"

definition MAX_FINAL_TRANSCRIPTS :: nat where
  "MAX_FINAL_TRANSCRIPTS = 30"

text \<open>The two global maps, keyed by user id.\<close>

record app_state =
  userTranscriptProcessors :: "jstring \<rightharpoonup> processor"
  userActiveLanguages :: "jstring \<rightharpoonup> jstring"

text \<open>\<open>for (const transcript of previousHistory) newProcessor.processString(transcript, true)\<close>\<close>

fun replay :: "segmenter \<Rightarrow> processor \<Rightarrow> jstring list \<Rightarrow> (error + processor) option" where
  "replay seg p [] = Some (Inr p)"
| "replay seg p (transcript # rest) =
     (case processString seg p (Str transcript) True of
        None \<Rightarrow> None
      | Some (Inl e) \<Rightarrow> Some (Inl e)
      | Some (Inr (p', out)) \<Rightarrow> replay seg p' rest)"

text \<open>
  \<open>applySettings\<close> for one user, given the three settings it reads: the language, the
  line width as a string and the number of lines. The result is the new maps and what was
  sent to the display; an exception is logged and thrown again. The number of lines is
  taken as an integer (a value below 1 becomes 3). Subscribing to the transcription
  stream is the SDK's and is left out.
\<close>

definition applySettings ::
  "segmenter \<Rightarrow> app_state \<Rightarrow> jstring \<Rightarrow> jstring \<Rightarrow> jstring \<Rightarrow> int
     \<Rightarrow> (error + app_state \<times> emission list) option" where
  "applySettings seg st userId language line_width number_of_lines =
     (let previousLanguage =
            (case userActiveLanguages st userId of
               None \<Rightarrow> ascii ''none''
             | Some l \<Rightarrow> if l = [] then ascii ''none'' else l);
          languageChanged = (previousLanguage \<noteq> ascii ''none'' \<and> previousLanguage \<noteq> language);
          st1 = st\<lparr>userActiveLanguages := (userActiveLanguages st)(userId \<mapsto> language)\<rparr>;
          isChineseLanguage = (language = ascii ''Chinese (Hanzi)'');
          lineWidth = convertLineWidth line_width isChineseLanguage;
          numberOfLines = (if number_of_lines < 1 then 3 else nat number_of_lines);
          previousTranscriptProcessor = userTranscriptProcessors st1 userId;
          newProcessor = new_processor lineWidth numberOfLines MAX_FINAL_TRANSCRIPTS isChineseLanguage;
          replayed =
            (case previousTranscriptProcessor of
               Some previous \<Rightarrow>
                 if \<not> languageChanged then replay seg newProcessor (finalTranscriptHistory previous)
                 else Some (Inr newProcessor)
             | None \<Rightarrow> Some (Inr newProcessor))
      in case replayed of
           None \<Rightarrow> None
         | Some (Inl e) \<Rightarrow> Some (Inl e)
         | Some (Inr np) \<Rightarrow>
             (case processString seg np (Str []) True of
                None \<Rightarrow> None
              | Some (Inl e) \<Rightarrow> Some (Inl e)
              | Some (Inr (np', formattedTranscript)) \<Rightarrow>
                  Some (Inr (st1\<lparr>userTranscriptProcessors :=
                                   (userTranscriptProcessors st1)(userId \<mapsto> np')\<rparr>,
                             [showTranscriptsToUser formattedTranscript True]))))"

section \<open>Loops in closed form\<close>

lemma shift_excess_drop: "shift_excess n xs = drop (length xs - n) xs"
proof (induction n xs rule: shift_excess.induct)
  case (1 n xs)
  show ?case
  proof (cases "length xs > n")
    case True
    then have "xs \<noteq> []" by auto
    have "shift_excess n xs = shift_excess n (tl xs)" using True by simp
    also have "\<dots> = drop (length (tl xs) - n) (tl xs)" using 1 True by simp
    also have "\<dots> = drop (length xs - n) xs"
      using True \<open>xs \<noteq> []\<close> by (cases xs) (simp_all add: Suc_diff_le)
    finally show ?thesis .
  next
    case False
    then show ?thesis by simp
  qed
qed

lemma pad_lines_replicate: "pad_lines n xs = xs @ replicate (n - length xs) []"
proof (induction n xs rule: pad_lines.induct)
  case (1 n xs)
  show ?case
  proof (cases "length xs < n")
    case True
    then obtain k where k: "n - length xs = Suc k" by (cases "n - length xs") auto
    then have k': "n - Suc (length xs) = k" by simp
    have "pad_lines n xs = pad_lines n (xs @ [[]])" using True by simp
    also have "\<dots> = (xs @ [[]]) @ replicate (n - length (xs @ [[]])) []" using 1 True by simp
    also have "\<dots> = xs @ replicate (n - length xs) []"
      using k k' by (simp add: replicate_app_Cons_same)
    finally show ?thesis .
  next
    case False
    then show ?thesis by simp
  qed
qed

declare shift_excess.simps [simp del] pad_lines.simps [simp del]

lemma fit_lines_eq:
  "fit_lines n ls = (if length ls \<le> n then ls @ replicate (n - length ls) [] else drop (length ls - n) ls)"
  by (simp add: fit_lines_def shift_excess_drop pad_lines_replicate)

lemma length_fit_lines: "length (fit_lines n ls) = n"
  by (simp add: fit_lines_eq)

section \<open>Properties of wrapText\<close>

lemma length_trim_le: "length (trim s) \<le> length s"
proof -
  have "length (trim s) \<le> length (dropWhile is_ws s)"
    unfolding trim_def using length_dropWhile_le[of is_ws "rev (dropWhile is_ws s)"] by simp
  also have "\<dots> \<le> length s" by (rule length_dropWhile_le)
  finally show ?thesis .
qed

lemma word_scan_le: "currentLength \<le> position \<Longrightarrow> word_scan ws position currentLength \<le> position"
  by (induction ws arbitrary: currentLength) auto

lemma back_to_space_le: "back_to_space text n \<le> n"
  by (induction n) auto

lemma splitIndex_le: "splitIndex seg ch text w \<le> w"
  by (simp add: splitIndex_def findChineseWordBoundary_def word_scan_le back_to_space_le Let_def)

lemma splitIndex_pos: "0 < w \<Longrightarrow> 0 < splitIndex seg False text w"
  by (simp add: splitIndex_def Let_def)

lemmas wrapText_loop_induct = wrapText_loop.raw_induct [rotated 1, consumes 1, case_names step]

lemma wrapText_loop_bound:
  assumes "wrapText_loop seg ch w acc tx = Some r"
  shows "(\<forall>l\<in>set acc. length l \<le> w) \<longrightarrow> (\<forall>l\<in>set r. length l \<le> w)"
  using assms
proof (induction seg ch w acc tx r rule: wrapText_loop_induct)
  case (step wl seg ch w acc tx r)
  show ?case
  proof (cases "tx = []")
    case True
    with step(2) show ?thesis by simp
  next
    case ne: False
    show ?thesis
    proof (cases "length tx \<le> w")
      case True
      with ne step(2) show ?thesis by auto
    next
      case False
      let ?i = "splitIndex seg ch tx w"
      from ne False step(2)
      have rec: "wl seg ch w (acc @ [trim (take ?i tx)]) (trim (drop ?i tx)) = Some r"
        by simp
      have "length (trim (take ?i tx)) \<le> w"
        using length_trim_le[of "take ?i tx"] splitIndex_le[of seg ch tx w] by simp
      with step(1)[OF rec] show ?thesis by simp
    qed
  qed
qed

lemma length_trim_drop_less:
  assumes "0 < i" "tx \<noteq> []"
  shows "length (trim (drop i tx)) < length tx"
proof -
  have "length (trim (drop i tx)) \<le> length (drop i tx)" by (rule length_trim_le)
  also have "\<dots> < length tx" using assms by simp
  finally show ?thesis .
qed

lemma wrapText_loop_total:
  assumes "0 < w"
  shows "\<exists>r. wrapText_loop seg False w acc tx = Some r"
proof (induction tx arbitrary: acc rule: length_induct)
  case (1 tx)
  show ?case
  proof (cases "tx = [] \<or> length tx \<le> w")
    case True
    then show ?thesis by (subst wrapText_loop.simps) auto
  next
    case False
    let ?i = "splitIndex seg False tx w"
    have "length (trim (drop ?i tx)) < length tx"
      using False splitIndex_pos[OF assms] by (intro length_trim_drop_less) auto
    with 1 obtain r where
      "wrapText_loop seg False w (acc @ [trim (take ?i tx)]) (trim (drop ?i tx)) = Some r"
      by blast
    with False show ?thesis by (subst wrapText_loop.simps) simp
  qed
qed

lemma wrapText_loop_stuck:
  assumes "wrapText_loop seg ch w acc tx = Some r"
  shows "\<not> (ch \<and> w < length tx \<and> trim tx = tx \<and> splitIndex seg ch tx w = 0)"
  using assms
proof (induction seg ch w acc tx r rule: wrapText_loop_induct)
  case (step wl seg ch w acc tx r)
  show ?case
  proof
    assume a: "ch \<and> w < length tx \<and> trim tx = tx \<and> splitIndex seg ch tx w = 0"
    then have len: "w < length tx" and tr: "trim tx = tx" and si: "splitIndex seg ch tx w = 0"
      by auto
    from len have "tx \<noteq> []" "\<not> length tx \<le> w" by auto
    with step(2) have "wl seg ch w (acc @ [trim (take (splitIndex seg ch tx w) tx)])
        (trim (drop (splitIndex seg ch tx w) tx)) = Some r" by simp
    then have "wl seg ch w (acc @ [trim []]) tx = Some r" by (simp add: si tr)
    from step(1)[OF this] a show False by auto
  qed
qed


section \<open>The transcript history\<close>

lemma addToTranscriptHistory_max [simp]:
  "maxFinalTranscripts (addToTranscriptHistory p t) = maxFinalTranscripts p"
  by (simp add: addToTranscriptHistory_def)

lemma foldl_add_max [simp]:
  "maxFinalTranscripts (foldl addToTranscriptHistory p ts) = maxFinalTranscripts p"
  by (induction ts arbitrary: p) simp_all

lemma last_n_snoc:
  "drop (length (drop (length xs - c) xs @ [t]) - c) (drop (length xs - c) xs @ [t])
     = drop (length (xs @ [t]) - c) (xs @ [t])"
  by (cases "c \<le> length xs") (auto simp: Suc_diff_le)

lemma history_after_appends:
  assumes "\<forall>t\<in>set ts. trim t \<noteq> []" "ts \<noteq> []"
  shows "finalTranscriptHistory (foldl addToTranscriptHistory p ts)
     = drop (length (finalTranscriptHistory p @ ts) - maxFinalTranscripts p) (finalTranscriptHistory p @ ts)"
  using assms
proof (induction ts rule: rev_induct)
  case Nil
  then show ?case by simp
next
  case (snoc t ts)
  let ?h = "finalTranscriptHistory p" and ?c = "maxFinalTranscripts p"
  from snoc.prems have t: "trim t \<noteq> []" by simp
  show ?case
  proof (cases "ts = []")
    case True
    with t show ?thesis by (simp add: addToTranscriptHistory_def shift_excess_drop)
  next
    case False
    with snoc have IH: "finalTranscriptHistory (foldl addToTranscriptHistory p ts)
        = drop (length (?h @ ts) - ?c) (?h @ ts)" by simp
    have "finalTranscriptHistory (foldl addToTranscriptHistory p (ts @ [t]))
        = drop (length (drop (length (?h @ ts) - ?c) (?h @ ts) @ [t]) - ?c)
            (drop (length (?h @ ts) - ?c) (?h @ ts) @ [t])"
      using t by (simp add: addToTranscriptHistory_def shift_excess_drop IH)
    also have "\<dots> = drop (length ((?h @ ts) @ [t]) - ?c) ((?h @ ts) @ [t])"
      by (rule last_n_snoc)
    finally show ?thesis by simp
  qed
qed

lemma processString_final_history:
  assumes "processString seg p (Str t) True = Some (Inr (p', s))"
  shows "finalTranscriptHistory p' = finalTranscriptHistory (addToTranscriptHistory p (trim t))"
  using assms
  by (auto simp: processString_def Let_def addToTranscriptHistory_def text_of_def
      split: option.splits)

subsection \<open>Evaluation at concrete inputs\<close>

lemma back_to_space_numeral:
  "back_to_space tx (numeral k) =
     (if charAt tx (numeral k) \<noteq> space then back_to_space tx (pred_numeral k) else numeral k)"
  by (simp add: numeral_eq_Suc)

lemma trim_empty: "trim [] = []"
  by (simp add: trim_def)

lemma replicate_num: "replicate (numeral k) x = x # replicate (pred_numeral k) x"
  by (simp add: numeral_eq_Suc)

lemmas string_eval = replicate_num ascii_def space_def newline_def is_ws_def trim_def charAt_def

lemmas wrap_eval = isChineseText_def findChineseWordBoundary_def is_alnum_def splitIndex_def
  wrapText_def wrapText_loop.simps back_to_space_numeral Let_def

lemmas processor_eval = new_processor_def addToTranscriptHistory_def text_of_def
  getCombinedTranscriptHistory_def fit_lines_eq processString_def shift_excess_drop

text \<open>
  C4. Appending \<open>k > 0\<close> more non-blank transcripts than the capacity leaves exactly
  the most recent \<open>maxFinalTranscripts\<close> of them, in insertion order, whatever the history
  held before. A blank or whitespace-only transcript is not added, neither by
  \<open>addToTranscriptHistory\<close> nor by a final \<open>processString\<close>. \<open>setMaxFinalTranscripts n\<close>
  keeps the last \<open>n\<close> entries at once.
\<close>

theorem history_bounded:
  assumes "0 < k" and "length ts = maxFinalTranscripts p + k" and "\<forall>t\<in>set ts. trim t \<noteq> []"
    and "trim b = []" and "processString seg q (Str b) True = Some (Inr (q', s))"
  shows "finalTranscriptHistory (foldl addToTranscriptHistory p ts) = drop k ts
    \<and> length (finalTranscriptHistory (foldl addToTranscriptHistory p ts)) = maxFinalTranscripts p
    \<and> addToTranscriptHistory q b = q
    \<and> finalTranscriptHistory q' = finalTranscriptHistory q
    \<and> finalTranscriptHistory (setMaxFinalTranscripts q n)
        = drop (length (finalTranscriptHistory q) - n) (finalTranscriptHistory q)
    \<and> length (finalTranscriptHistory (setMaxFinalTranscripts q n))
        = min n (length (finalTranscriptHistory q))"
proof -
  let ?h = "finalTranscriptHistory p" and ?c = "maxFinalTranscripts p"
  from assms have ne: "ts \<noteq> []" by auto
  have "finalTranscriptHistory (foldl addToTranscriptHistory p ts)
      = drop (length (?h @ ts) - ?c) (?h @ ts)"
    using assms(3) ne by (rule history_after_appends)
  also have "\<dots> = drop k ts" using assms(2) by simp
  finally have a: "finalTranscriptHistory (foldl addToTranscriptHistory p ts) = drop k ts" .
  have b: "length (drop k ts) = ?c" using assms(2) by simp
  have c: "addToTranscriptHistory q b = q"
    using assms(4) by (simp add: addToTranscriptHistory_def)
  have "trim (trim b) = []" using assms(4) by (simp add: trim_empty)
  then have d: "finalTranscriptHistory q' = finalTranscriptHistory q"
    using processString_final_history[OF assms(5)] by (simp add: addToTranscriptHistory_def)
  have e: "finalTranscriptHistory (setMaxFinalTranscripts q n)
        = drop (length (finalTranscriptHistory q) - n) (finalTranscriptHistory q)"
    by (simp add: setMaxFinalTranscripts_def shift_excess_drop)
  from a b c d e show ?thesis by auto
qed

theorem history_bounded_witness:
  "(0::nat) < 1
   \<and> length [ascii ''one'', ascii ''two'', ascii ''three''] = maxFinalTranscripts (new_processor 30 3 2 False) + 1
   \<and> trim (ascii ''one'') \<noteq> [] \<and> trim (ascii ''two'') \<noteq> [] \<and> trim (ascii ''three'') \<noteq> []
   \<and> trim (ascii ''  '') = []
   \<and> processString cut_runs ((new_processor 30 3 2 False)\<lparr>finalTranscriptHistory := [ascii ''one'', ascii ''two'']\<rparr>)
        (Str (ascii ''  '')) True
      = Some (Inr ((new_processor 30 3 2 False)
                \<lparr>finalTranscriptHistory := [ascii ''one'', ascii ''two''],
                  currentDisplayLines := [ascii ''one two'', [], []]\<rparr>,
              ascii ''one two'' @ [newline, newline]))
   \<and> finalTranscriptHistory
        (foldl addToTranscriptHistory (new_processor 30 3 2 False) [ascii ''one'', ascii ''two'', ascii ''three''])
      = [ascii ''two'', ascii ''three'']
   \<and> finalTranscriptHistory
        (setMaxFinalTranscripts ((new_processor 30 3 2 False)\<lparr>finalTranscriptHistory := [ascii ''one'', ascii ''two'']\<rparr>) 1)
      = [ascii ''two'']"
proof -
  let ?p = "new_processor 30 3 2 False"
  let ?q = "?p\<lparr>finalTranscriptHistory := [ascii ''one'', ascii ''two'']\<rparr>"
  let ?ts = "[ascii ''one'', ascii ''two'', ascii ''three'']"
  have h1: "(0::nat) < 1" by simp
  have h2: "length ?ts = maxFinalTranscripts ?p + 1" by (simp add: new_processor_def)
  have h3: "\<forall>t\<in>set ?ts. trim t \<noteq> []" by (simp add: string_eval)
  have h4: "trim (ascii ''  '') = []" by (simp add: string_eval)
  have h5: "processString cut_runs ?q (Str (ascii ''  '')) True
      = Some (Inr (?q\<lparr>currentDisplayLines := [ascii ''one two'', [], []]\<rparr>,
              ascii ''one two'' @ [newline, newline]))"
    by (simp add: string_eval wrap_eval processor_eval)
  from history_bounded [OF h1 h2 h3 h4 h5, of 1] h1 h2 h3 h4 h5
  show ?thesis by (simp add: new_processor_def)
qed

section \<open>Logographic mode: a word longer than the line\<close>

lemma wrapText_loop_first_word_too_long:
  assumes "isChineseText tx" and "trim tx = tx" and "w < length tx"
    and "seg tx = word # rest" and "w < length word"
  shows "splitIndex seg True tx w = 0" and "wrapText_loop seg True w acc tx = None"
proof -
  show si: "splitIndex seg True tx w = 0"
    using assms by (simp add: splitIndex_def findChineseWordBoundary_def)
  show "wrapText_loop seg True w acc tx = None"
  proof (cases "wrapText_loop seg True w acc tx")
    case None
    then show ?thesis .
  next
    case (Some r)
    from wrapText_loop_stuck[OF Some] assms si show ?thesis by simp
  qed
qed

lemma wrapText_loop_step:
  assumes "w < length tx" and "splitIndex seg ch tx w = i"
  shows "wrapText_loop seg ch w acc tx
     = wrapText_loop seg ch w (acc @ [trim (take i tx)]) (trim (drop i tx))"
proof -
  from assms(1) have "tx \<noteq> []" "\<not> length tx \<le> w" by auto
  then show ?thesis using assms(2) by (subst wrapText_loop.simps) simp
qed

text \<open>
  C3. In logographic mode the loop does not always end. Take a text that holds a Chinese
  character, has no surrounding whitespace and is longer than the line, and a segmenter
  whose first word for it is longer than the line. Then \<open>findChineseWordBoundary\<close>
  returns 0, the iteration removes the empty prefix and leaves the text as it was, and
  \<open>wrapText\<close> never returns. (In whitespace mode the loop ends for every text and every
  positive width: \<open>wrapText_loop_total\<close>.)
\<close>

theorem wrapText_chinese_diverges:
  assumes "0 < maxLineLength" and "isChineseText tx" and "trim tx = tx"
    and "seg tx = word # rest"
    and "maxLineLength < length word" and "maxLineLength < length tx"
  shows "findChineseWordBoundary seg tx maxLineLength = 0
    \<and> take (splitIndex seg True tx maxLineLength) tx = []
    \<and> trim (drop (splitIndex seg True tx maxLineLength) tx) = tx
    \<and> wrapText seg True tx maxLineLength = None"
proof -
  have si: "splitIndex seg True tx maxLineLength = 0"
    using assms by (intro wrapText_loop_first_word_too_long(1))
  have "wrapText_loop seg True maxLineLength [] tx = None"
    using assms by (intro wrapText_loop_first_word_too_long(2))
  with si assms(3) show ?thesis by (simp add: wrapText_def splitIndex_def)
qed

lemma cut_runs_international:
  "cut_runs (ascii ''international'' @ 0x8FD9 # zs) = ascii ''international'' # [0x8FD9] # cut_runs zs"
  by (simp add: ascii_def is_alnum_def)

theorem wrapText_chinese_diverges_witness:
  "(0::nat) < 10
   \<and> isChineseText (ascii ''international'' @ [0x8FD9])
   \<and> trim (ascii ''international'' @ [0x8FD9]) = ascii ''international'' @ [0x8FD9]
   \<and> cut_runs (ascii ''international'' @ [0x8FD9]) = ascii ''international'' # [[0x8FD9]]
   \<and> 10 < length (ascii ''international'')
   \<and> 10 < length (ascii ''international'' @ [0x8FD9])
   \<and> findChineseWordBoundary cut_runs (ascii ''international'' @ [0x8FD9]) 10 = 0
   \<and> wrapText cut_runs True (ascii ''international'' @ [0x8FD9]) 10 = None"
proof -
  let ?t = "ascii ''international'' @ [0x8FD9]"
  have h1: "(0::nat) < 10" by simp
  have h2: "isChineseText ?t" by (simp add: isChineseText_def ascii_def)
  have h3: "trim ?t = ?t" by (simp add: string_eval)
  have h4: "cut_runs ?t = ascii ''international'' # [[0x8FD9]]"
    using cut_runs_international[of "[]"] by simp
  have h5: "10 < length (ascii ''international'')" by (simp add: ascii_def)
  have h6: "10 < length ?t" by (simp add: ascii_def)
  from wrapText_chinese_diverges
      [of 10 ?t cut_runs "ascii ''international''" "[[0x8FD9]]", OF h1 h2 h3 h4 h5 h6]
    h1 h2 h3 h4 h5 h6
  show ?thesis by simp
qed

text \<open>
  C2. A token longer than the line is not force-split in logographic mode. At width 10 the
  text U+6211 U+559C U+6B22 "international" U+8FD9 U+4E2A U+8BCD loses its first three
  characters to the first line; for the rest, which starts with the 13-letter word, the
  boundary is 0 and not the width, and \<open>wrapText\<close> returns no sequence of lines at all.
  (Every line of a sequence that is returned, in either mode, is within the width:
  \<open>wrapText_loop_bound\<close>.)
\<close>

theorem wrapText_long_token_not_split:
  "findChineseWordBoundary cut_runs (ascii ''international'' @ [0x8FD9, 0x4E2A, 0x8BCD]) 10 = 0
   \<and> wrapText cut_runs True
        ([0x6211, 0x559C, 0x6B22] @ ascii ''international'' @ [0x8FD9, 0x4E2A, 0x8BCD]) 10 = None"
proof -
  let ?t = "ascii ''international'' @ [0x8FD9, 0x4E2A, 0x8BCD]"
  have h2: "isChineseText ?t" by (simp add: isChineseText_def ascii_def)
  have h3: "trim ?t = ?t" by (simp add: string_eval)
  have h4: "cut_runs ?t = ascii ''international'' # [0x8FD9] # cut_runs [0x4E2A, 0x8BCD]"
    using cut_runs_international[of "[0x4E2A, 0x8BCD]"] by simp
  have h5: "10 < length (ascii ''international'')" by (simp add: ascii_def)
  have h6: "10 < length ?t" by (simp add: ascii_def)
  have stuck: "wrapText_loop cut_runs True 10 acc ?t = None" for acc
    using h2 h3 h6 h4 h5 by (rule wrapText_loop_first_word_too_long(2))
  have b: "findChineseWordBoundary cut_runs ?t 10 = 0"
    using wrapText_loop_first_word_too_long(1)[of ?t 10 cut_runs, OF h2 h3 h6 h4 h5]
    by (simp add: splitIndex_def)
  let ?u = "[0x6211, 0x559C, 0x6B22] @ ?t"
  have first: "splitIndex cut_runs True ?u 10 = 3"
    by (simp add: splitIndex_def findChineseWordBoundary_def isChineseText_def is_alnum_def
        ascii_def)
  have "10 < length ?u" by (simp add: ascii_def)
  then have "wrapText_loop cut_runs True 10 [] ?u
      = wrapText_loop cut_runs True 10 ([] @ [trim (take 3 ?u)]) (trim (drop 3 ?u))"
    using first by (rule wrapText_loop_step)
  also have "trim (drop 3 ?u) = ?t" using h3 by simp
  finally show ?thesis using b stuck by (simp add: wrapText_def)
qed

section \<open>Properties of processString\<close>

lemma addToTranscriptHistory_frame [simp]:
  "isChinese (addToTranscriptHistory p t) = isChinese p"
  "maxCharsPerLine (addToTranscriptHistory p t) = maxCharsPerLine p"
  "maxLines (addToTranscriptHistory p t) = maxLines p"
  "partialText (addToTranscriptHistory p t) = partialText p"
  by (simp_all add: addToTranscriptHistory_def)

lemma processString_partial_cases:
  assumes "newText \<noteq> Undefined"
  shows "processString seg p newText False =
    (case wrapText seg (isChinese p)
            (getCombinedTranscriptHistory p @ space @ text_of newText) (maxCharsPerLine p) of
       None \<Rightarrow> None
     | Some w \<Rightarrow> Some (Inr (p\<lparr>partialText := text_of newText, lastUserTranscript := text_of newText,
                                currentDisplayLines := fit_lines (maxLines p) w\<rparr>,
                            join [newline] (fit_lines (maxLines p) w))))"
  using assms
  by (cases newText)
     (simp_all add: processString_def Let_def getCombinedTranscriptHistory_def text_of_def
        split: option.splits)

lemma processString_final_cases:
  assumes "newText \<noteq> Undefined"
  shows "processString seg p newText True =
    (case wrapText seg (isChinese p)
            (getCombinedTranscriptHistory (addToTranscriptHistory p (text_of newText)))
            (maxCharsPerLine p) of
       None \<Rightarrow> None
     | Some w \<Rightarrow> Some (Inr ((addToTranscriptHistory (p\<lparr>partialText := []\<rparr>) (text_of newText))
                               \<lparr>currentDisplayLines := fit_lines (maxLines p) w\<rparr>,
                            join [newline] (fit_lines (maxLines p) w))))"
  using assms
  by (cases newText)
     (simp_all add: processString_def Let_def getCombinedTranscriptHistory_def text_of_def
        addToTranscriptHistory_def split: option.splits)

lemma processString_Undefined [simp]:
  "processString seg p Undefined isFinal = Some (Inl TypeError)"
  by (simp add: processString_def)

lemma processString_Null: "processString seg p Null isFinal = processString seg p (Str []) isFinal"
  by (simp add: processString_def trim_empty text_of_def)

lemma processString_total:
  assumes "\<not> isChinese p" and "0 < maxCharsPerLine p" and "newText \<noteq> Undefined"
  shows "\<exists>p' s. processString seg p newText isFinal = Some (Inr (p', s))"
proof -
  have w: "\<exists>r. wrapText seg False tx (maxCharsPerLine p) = Some r" for tx
    unfolding wrapText_def using assms(2) by (rule wrapText_loop_total)
  show ?thesis
  proof (cases isFinal)
    case True
    obtain r where "wrapText seg False
        (getCombinedTranscriptHistory (addToTranscriptHistory p (text_of newText)))
        (maxCharsPerLine p) = Some r" using w by blast
    with True assms show ?thesis by (simp add: processString_final_cases)
  next
    case False
    obtain r where "wrapText seg False
        (getCombinedTranscriptHistory p @ space @ text_of newText) (maxCharsPerLine p) = Some r"
      using w by blast
    with False assms show ?thesis by (simp add: processString_partial_cases)
  qed
qed

lemma processString_partial_frame:
  assumes "processString seg p newText False = Some (Inr (p', s))"
  shows "finalTranscriptHistory p' = finalTranscriptHistory p"
    and "maxFinalTranscripts p' = maxFinalTranscripts p"
    and "partialText p' = text_of newText"
proof -
  from assms have nu: "newText \<noteq> Undefined" by (cases newText) simp_all
  from assms show "finalTranscriptHistory p' = finalTranscriptHistory p"
    and "maxFinalTranscripts p' = maxFinalTranscripts p"
    and "partialText p' = text_of newText"
    by (auto simp: processString_partial_cases[OF nu] split: option.splits)
qed

text \<open>
  C10. A non-final \<open>processString\<close> that returns leaves the final-transcript history as
  it was and stores the trimmed text as the pending partial text; it throws only for
  \<open>undefined\<close>, before any field is written; and in whitespace mode with a positive width
  it does return for every string or null.
\<close>

theorem processString_partial_keeps_history:
  "(processString seg p newText False = Some (Inr (p', s)) \<longrightarrow>
      finalTranscriptHistory p' = finalTranscriptHistory p
      \<and> partialText p' = (case newText of Str t \<Rightarrow> trim t | _ \<Rightarrow> []))
   \<and> (processString seg p newText False = Some (Inl e) \<longrightarrow> newText = Undefined)
   \<and> (\<not> isChinese p \<and> 0 < maxCharsPerLine p \<and> newText \<noteq> Undefined \<longrightarrow>
        (\<exists>q out. processString seg p newText False = Some (Inr (q, out))
           \<and> finalTranscriptHistory q = finalTranscriptHistory p))"
proof (intro conjI impI)
  assume a: "processString seg p newText False = Some (Inr (p', s))"
  from processString_partial_frame(1)[OF a]
  show "finalTranscriptHistory p' = finalTranscriptHistory p" .
  from processString_partial_frame(3)[OF a]
  show "partialText p' = (case newText of Str t \<Rightarrow> trim t | _ \<Rightarrow> [])"
    by (simp add: text_of_def)
next
  assume "processString seg p newText False = Some (Inl e)"
  then show "newText = Undefined"
    by (cases "newText = Undefined") (auto simp: processString_partial_cases split: option.splits)
next
  assume a: "\<not> isChinese p \<and> 0 < maxCharsPerLine p \<and> newText \<noteq> Undefined"
  then obtain q out where q: "processString seg p newText False = Some (Inr (q, out))"
    using processString_total[of p newText seg False] by blast
  with processString_partial_frame(1)[OF q]
  show "\<exists>q out. processString seg p newText False = Some (Inr (q, out))
           \<and> finalTranscriptHistory q = finalTranscriptHistory p" by blast
qed


theorem processString_partial_keeps_history_witness:
  "processString cut_runs
      ((new_processor 10 2 30 False)\<lparr>finalTranscriptHistory := [ascii ''good morning'']\<rparr>)
      (Str (ascii '' hello world foo '')) False
    = Some (Inr ((new_processor 10 2 30 False)
            \<lparr>finalTranscriptHistory := [ascii ''good morning''],
              partialText := ascii ''hello world foo'',
              lastUserTranscript := ascii ''hello world foo'',
              currentDisplayLines := [ascii ''hello'', ascii ''world foo'']\<rparr>,
          ascii ''hello'' @ [newline] @ ascii ''world foo''))
   \<and> processString cut_runs (new_processor 10 2 30 False) Undefined False = Some (Inl TypeError)
   \<and> \<not> isChinese ((new_processor 10 2 30 False)\<lparr>finalTranscriptHistory := [ascii ''good morning'']\<rparr>)
   \<and> 0 < maxCharsPerLine ((new_processor 10 2 30 False)\<lparr>finalTranscriptHistory := [ascii ''good morning'']\<rparr>)
   \<and> finalTranscriptHistory
        ((new_processor 10 2 30 False)
            \<lparr>finalTranscriptHistory := [ascii ''good morning''],
              partialText := ascii ''hello world foo'',
              lastUserTranscript := ascii ''hello world foo'',
              currentDisplayLines := [ascii ''hello'', ascii ''world foo'']\<rparr>)
      = [ascii ''good morning'']"
proof -
  let ?p = "(new_processor 10 2 30 False)\<lparr>finalTranscriptHistory := [ascii ''good morning'']\<rparr>"
  let ?p' = "(new_processor 10 2 30 False)
            \<lparr>finalTranscriptHistory := [ascii ''good morning''],
              partialText := ascii ''hello world foo'',
              lastUserTranscript := ascii ''hello world foo'',
              currentDisplayLines := [ascii ''hello'', ascii ''world foo'']\<rparr>"
  have run: "processString cut_runs ?p (Str (ascii '' hello world foo '')) False
    = Some (Inr (?p', ascii ''hello'' @ [newline] @ ascii ''world foo''))"
    by (simp add: string_eval wrap_eval processor_eval)
  have err: "processString cut_runs (new_processor 10 2 30 False) Undefined False
      = Some (Inl TypeError)"
    by (simp add: processString_def)
  from processString_partial_keeps_history
    [of cut_runs ?p "Str (ascii '' hello world foo '')" ?p'
        "ascii ''hello'' @ [newline] @ ascii ''world foo''" TypeError]
    run err
  show ?thesis by (simp add: new_processor_def)
qed


subsection \<open>Reachable states\<close>

lemma wrapText_empty [simp]: "wrapText seg ch [] w = Some []"
  by (simp add: wrapText_def wrapText_loop.simps)

lemma processString_frame:
  assumes "processString seg p newText isFinal = Some (Inr (p', s))"
  shows "isChinese p' = isChinese p" and "maxCharsPerLine p' = maxCharsPerLine p"
    and "maxLines p' = maxLines p" and "maxFinalTranscripts p' = maxFinalTranscripts p"
proof -
  from assms have nu: "newText \<noteq> Undefined" by (cases newText) simp_all
  from assms show "isChinese p' = isChinese p" and "maxCharsPerLine p' = maxCharsPerLine p"
    and "maxLines p' = maxLines p" and "maxFinalTranscripts p' = maxFinalTranscripts p"
    by (cases isFinal;
        auto simp: processString_partial_cases[OF nu] processString_final_cases[OF nu]
          split: option.splits)+
qed

lemma processString_final_wrapped:
  assumes "processString seg p newText True = Some (Inr (p', s))"
  shows "\<exists>w. wrapText seg (isChinese p') (getCombinedTranscriptHistory p') (maxCharsPerLine p') = Some w"
proof -
  from assms have nu: "newText \<noteq> Undefined" by (cases newText) simp_all
  from assms show ?thesis
    by (auto simp: processString_final_cases[OF nu] getCombinedTranscriptHistory_def
          addToTranscriptHistory_def split: option.splits)
qed

lemma reachable_history_wraps:
  assumes "reachable seg p"
  shows "\<exists>w. wrapText seg (isChinese p) (getCombinedTranscriptHistory p) (maxCharsPerLine p) = Some w"
  using assms
proof (induction rule: reachable.induct)
  case (constructed w l m c)
  show ?case by (simp add: new_processor_def getCombinedTranscriptHistory_def)
next
  case (processed p newText isFinal p' out)
  show ?case
  proof (cases isFinal)
    case True
    with processed.hyps(2) have "processString seg p newText True = Some (Inr (p', out))"
      by simp
    then show ?thesis by (rule processString_final_wrapped)
  next
    case False
    with processed.hyps(2) have "processString seg p newText False = Some (Inr (p', out))"
      by simp
    then have "finalTranscriptHistory p' = finalTranscriptHistory p"
      by (rule processString_partial_frame(1))
    with processed.IH processString_frame(1,2)[OF processed.hyps(2)]
    show ?thesis by (simp add: getCombinedTranscriptHistory_def)
  qed
next
  case (cleared p)
  show ?case by (simp add: clear_def getCombinedTranscriptHistory_def)
qed

lemma processString_empty_final:
  "processString seg p (Str []) True =
    (case wrapText seg (isChinese p) (getCombinedTranscriptHistory p) (maxCharsPerLine p) of
       None \<Rightarrow> None
     | Some w \<Rightarrow> Some (Inr (p\<lparr>partialText := [], currentDisplayLines := fit_lines (maxLines p) w\<rparr>,
                            join [newline] (fit_lines (maxLines p) w))))"
  by (simp add: processString_final_cases text_of_def trim_empty addToTranscriptHistory_def
        getCombinedTranscriptHistory_def split: option.splits)

lemma processString_empty_final_again:
  assumes "processString seg p (Str []) True = Some (Inr (p1, s))"
  shows "processString seg p1 (Str []) True = Some (Inr (p1, s))"
  using assms
  by (auto simp: processString_empty_final getCombinedTranscriptHistory_def split: option.splits)

text \<open>
  C9. From every reachable state, \<open>processString("", true)\<close> returns, and a second call
  right after it returns the same string (and leaves the state as the first call left it).
\<close>

theorem processString_empty_final_idempotent:
  assumes "reachable seg p"
  shows "\<exists>p1 s. processString seg p (Str []) True = Some (Inr (p1, s))
           \<and> processString seg p1 (Str []) True = Some (Inr (p1, s))"
proof -
  from reachable_history_wraps[OF assms] obtain w where
    "wrapText seg (isChinese p) (getCombinedTranscriptHistory p) (maxCharsPerLine p) = Some w"
    by blast
  then obtain p1 s where first: "processString seg p (Str []) True = Some (Inr (p1, s))"
    by (simp add: processString_empty_final)
  from processString_empty_final_again[OF first] first show ?thesis by blast
qed


theorem processString_empty_final_idempotent_witness:
  "reachable cut_runs
      ((new_processor 10 2 30 True)
         \<lparr>finalTranscriptHistory := [ascii ''ni hao''], currentDisplayLines := [ascii ''ni hao'', []]\<rparr>)
   \<and> processString cut_runs
        ((new_processor 10 2 30 True)
           \<lparr>finalTranscriptHistory := [ascii ''ni hao''], currentDisplayLines := [ascii ''ni hao'', []]\<rparr>)
        (Str []) True
      = Some (Inr ((new_processor 10 2 30 True)
           \<lparr>finalTranscriptHistory := [ascii ''ni hao''], currentDisplayLines := [ascii ''ni hao'', []]\<rparr>,
           ascii ''ni hao'' @ [newline]))"
proof -
  let ?p = "(new_processor 10 2 30 True)
         \<lparr>finalTranscriptHistory := [ascii ''ni hao''], currentDisplayLines := [ascii ''ni hao'', []]\<rparr>"
  have "processString cut_runs (new_processor 10 2 30 True) (Str (ascii ''ni hao'')) True
      = Some (Inr (?p, ascii ''ni hao'' @ [newline]))"
    by (simp add: string_eval wrap_eval processor_eval)
  with reachable.constructed have r: "reachable cut_runs ?p"
    by (rule reachable.processed)
  have run: "processString cut_runs ?p (Str []) True = Some (Inr (?p, ascii ''ni hao'' @ [newline]))"
    by (simp add: string_eval wrap_eval processor_eval)
  from processString_empty_final_idempotent [OF r] obtain p1 s where
    "processString cut_runs ?p (Str []) True = Some (Inr (p1, s))"
    "processString cut_runs p1 (Str []) True = Some (Inr (p1, s))" by blast
  with r run show ?thesis by simp
qed

text \<open>
  C8, amended. A null text is processed exactly as the empty string: the same outcome,
  never an exception; the call returns in whitespace mode with a positive width, and for a
  final event from every reachable state.
\<close>

theorem processString_null_is_empty:
  "processString seg p Null isFinal = processString seg p (Str []) isFinal
   \<and> processString seg p Null isFinal \<noteq> Some (Inl e)
   \<and> (\<not> isChinese p \<and> 0 < maxCharsPerLine p \<longrightarrow>
        (\<exists>p' s. processString seg p Null isFinal = Some (Inr (p', s))))
   \<and> (reachable seg p \<longrightarrow> (\<exists>p' s. processString seg p Null True = Some (Inr (p', s))))"
proof (intro conjI impI)
  show "processString seg p Null isFinal = processString seg p (Str []) isFinal"
    by (rule processString_Null)
  show "processString seg p Null isFinal \<noteq> Some (Inl e)"
    by (cases isFinal)
       (auto simp: processString_partial_cases processString_final_cases split: option.splits)
next
  assume "\<not> isChinese p \<and> 0 < maxCharsPerLine p"
  then show "\<exists>p' s. processString seg p Null isFinal = Some (Inr (p', s))"
    by (intro processString_total) auto
next
  assume "reachable seg p"
  from reachable_history_wraps[OF this] obtain w where
    "wrapText seg (isChinese p) (getCombinedTranscriptHistory p) (maxCharsPerLine p) = Some w"
    by blast
  then show "\<exists>p' s. processString seg p Null True = Some (Inr (p', s))"
    by (simp add: processString_Null processString_empty_final)
qed

theorem processString_null_is_empty_witness:
  "\<not> isChinese (new_processor 30 3 30 False) \<and> 0 < maxCharsPerLine (new_processor 30 3 30 False)
   \<and> reachable cut_runs (new_processor 30 3 30 False)
   \<and> processString cut_runs (new_processor 30 3 30 False) (Str []) False
      = Some (Inr ((new_processor 30 3 30 False)\<lparr>currentDisplayLines := [space, [], []]\<rparr>,
                   space @ [newline, newline]))
   \<and> processString cut_runs (new_processor 30 3 30 False) Null False
      = Some (Inr ((new_processor 30 3 30 False)\<lparr>currentDisplayLines := [space, [], []]\<rparr>,
                   space @ [newline, newline]))"
proof -
  let ?p = "new_processor 30 3 30 False"
  have h: "\<not> isChinese ?p \<and> 0 < maxCharsPerLine ?p" by (simp add: new_processor_def)
  have r: "reachable cut_runs ?p" by (rule reachable.constructed)
  have run: "processString cut_runs ?p (Str []) False
      = Some (Inr (?p\<lparr>currentDisplayLines := [space, [], []]\<rparr>, space @ [newline, newline]))"
    by (simp add: string_eval wrap_eval processor_eval)
  from processString_null_is_empty [of cut_runs ?p False TypeError] h r run
  show ?thesis by simp
qed

text \<open>C8 as stated fails for \<open>undefined\<close>: \<open>undefined.trim()\<close> throws a TypeError.\<close>

theorem processString_undefined_counterexample:
  "processString cut_runs (new_processor 30 3 30 False) Undefined False = Some (Inl TypeError)
   \<and> processString cut_runs (new_processor 30 3 30 False) Undefined True = Some (Inl TypeError)"
  by (simp add: processString_def)

section \<open>The display\<close>

lemma split_on_not_Nil [simp]: "split_on c s \<noteq> []"
  by (induction s) (auto split: list.splits)

lemma split_on_no_separator: "c \<notin> set x \<Longrightarrow> split_on c x = [x]"
  by (induction x) auto

lemma split_on_append_separator:
  "c \<notin> set x \<Longrightarrow> split_on c (x @ c # r) = x # split_on c r"
  by (induction x) (auto split: list.splits)

lemma split_on_join:
  assumes "ls \<noteq> []" and "\<forall>l\<in>set ls. c \<notin> set l"
  shows "split_on c (join [c] ls) = ls"
  using assms
proof (induction "[c]" ls rule: join.induct)
  case 1
  then show ?case by simp
next
  case (2 x)
  then show ?case by (simp add: split_on_no_separator)
next
  case (3 x y ys)
  then show ?case by (simp add: split_on_append_separator)
qed

lemma processString_display:
  assumes "processString seg p newText isFinal = Some (Inr (p', display))"
  shows "\<exists>wrapped.
      wrapText seg (isChinese p)
        (if isFinal then getCombinedTranscriptHistory p'
         else getCombinedTranscriptHistory p' @ space @ partialText p')
        (maxCharsPerLine p) = Some wrapped
      \<and> currentDisplayLines p' = fit_lines (maxLines p) wrapped
      \<and> display = join [newline] (currentDisplayLines p')"
proof -
  from assms have nu: "newText \<noteq> Undefined" by (cases newText) simp_all
  from assms show ?thesis
    by (cases isFinal)
       (auto simp: processString_partial_cases[OF nu] processString_final_cases[OF nu]
          getCombinedTranscriptHistory_def addToTranscriptHistory_def split: option.splits)
qed

text \<open>
  C1, amended. When \<open>processString\<close> returns and \<open>maxLines\<close> is positive, the string it
  returns is the newline-join of exactly \<open>maxLines\<close> lines: the wrapped lines, padded
  at the end with empty strings when there are fewer, or without their oldest (front)
  lines when there are more. It splits on the newline into exactly these lines when none
  of them holds a newline itself.
\<close>

theorem processString_exactly_maxLines:
  assumes "processString seg p newText isFinal = Some (Inr (p', display))"
    and "0 < maxLines p"
  shows "\<exists>wrapped.
      wrapText seg (isChinese p)
        (if isFinal then getCombinedTranscriptHistory p'
         else getCombinedTranscriptHistory p' @ space @ partialText p')
        (maxCharsPerLine p) = Some wrapped
      \<and> currentDisplayLines p' =
          (if length wrapped \<le> maxLines p
           then wrapped @ replicate (maxLines p - length wrapped) []
           else drop (length wrapped - maxLines p) wrapped)
      \<and> length (currentDisplayLines p') = maxLines p
      \<and> display = join [newline] (currentDisplayLines p')
      \<and> ((\<forall>l\<in>set (currentDisplayLines p'). newline \<notin> set l) \<longrightarrow>
            split_on newline display = currentDisplayLines p')"
proof -
  from processString_display[OF assms(1)] obtain wrapped where
    w: "wrapText seg (isChinese p)
        (if isFinal then getCombinedTranscriptHistory p'
         else getCombinedTranscriptHistory p' @ space @ partialText p')
        (maxCharsPerLine p) = Some wrapped"
    and d: "currentDisplayLines p' = fit_lines (maxLines p) wrapped"
    and j: "display = join [newline] (currentDisplayLines p')" by blast
  have len: "length (currentDisplayLines p') = maxLines p"
    using d by (simp add: length_fit_lines)
  with assms(2) have ne: "currentDisplayLines p' \<noteq> []" by auto
  have "(\<forall>l\<in>set (currentDisplayLines p'). newline \<notin> set l) \<longrightarrow>
            split_on newline display = currentDisplayLines p'"
    using j ne by (simp add: split_on_join)
  with w d j len show ?thesis by (auto simp: fit_lines_eq)
qed

theorem processString_exactly_maxLines_witness:
  "processString cut_runs (new_processor 10 2 30 False) (Str (ascii ''hello world foo'')) False
     = Some (Inr ((new_processor 10 2 30 False)
            \<lparr>partialText := ascii ''hello world foo'',
              lastUserTranscript := ascii ''hello world foo'',
              currentDisplayLines := [ascii ''hello'', ascii ''world foo'']\<rparr>,
          ascii ''hello'' @ [newline] @ ascii ''world foo''))
   \<and> 0 < maxLines (new_processor 10 2 30 False)
   \<and> newline \<notin> set (ascii ''hello'') \<and> newline \<notin> set (ascii ''world foo'')
   \<and> split_on newline (ascii ''hello'' @ [newline] @ ascii ''world foo'')
       = [ascii ''hello'', ascii ''world foo'']"
proof -
  let ?p = "new_processor 10 2 30 False"
  let ?p' = "?p\<lparr>partialText := ascii ''hello world foo'',
              lastUserTranscript := ascii ''hello world foo'',
              currentDisplayLines := [ascii ''hello'', ascii ''world foo'']\<rparr>"
  have run: "processString cut_runs ?p (Str (ascii ''hello world foo'')) False
     = Some (Inr (?p', ascii ''hello'' @ [newline] @ ascii ''world foo''))"
    by (simp add: string_eval wrap_eval processor_eval)
  have pos: "0 < maxLines ?p" by (simp add: new_processor_def)
  have nl: "newline \<notin> set (ascii ''hello'') \<and> newline \<notin> set (ascii ''world foo'')"
    by (simp add: string_eval)
  from processString_exactly_maxLines [OF run pos] nl
  have "split_on newline (ascii ''hello'' @ [newline] @ ascii ''world foo'')
       = [ascii ''hello'', ascii ''world foo'']" by auto
  with run pos nl show ?thesis by simp
qed

text \<open>
  C1 as stated fails for what the display receives: \<open>showTranscriptsToUser\<close> sends the
  string through \<open>cleanTranscriptText\<close>, whose \<open>trim\<close> removes the trailing empty lines
  (one line arrives where \<open>maxLines\<close> is 3). A transcript that holds a newline gives more
  than \<open>maxLines\<close> elements (four for 3).
\<close>

theorem emitted_display_counterexample:
  "processString cut_runs (new_processor 30 3 30 False) (Str (ascii ''hello'')) False
     = Some (Inr ((new_processor 30 3 30 False)
            \<lparr>partialText := ascii ''hello'', lastUserTranscript := ascii ''hello'',
              currentDisplayLines := [ascii '' hello'', [], []]\<rparr>,
          ascii '' hello'' @ [newline, newline]))
   \<and> showTranscriptsToUser (ascii '' hello'' @ [newline, newline]) False
       = ShowTextWall (ascii ''hello'') None
   \<and> split_on newline (ascii ''hello'') = [ascii ''hello'']
   \<and> length (split_on newline (ascii ''hello'')) \<noteq> maxLines (new_processor 30 3 30 False)
   \<and> processString cut_runs (new_processor 30 3 30 False)
        (Str (ascii ''a'' @ [newline] @ ascii ''b'')) True
     = Some (Inr ((new_processor 30 3 30 False)
            \<lparr>finalTranscriptHistory := [ascii ''a'' @ [newline] @ ascii ''b''],
              currentDisplayLines := [ascii ''a'' @ [newline] @ ascii ''b'', [], []]\<rparr>,
          ascii ''a'' @ [newline] @ ascii ''b'' @ [newline, newline]))
   \<and> split_on newline (ascii ''a'' @ [newline] @ ascii ''b'' @ [newline, newline])
       = [ascii ''a'', ascii ''b'', [], []]"
  by (simp add: string_eval wrap_eval processor_eval showTranscriptsToUser_def
      cleanTranscriptText_def is_lead_punct_def)

section \<open>Timers\<close>

text \<open>
  C5. Two non-final updates, the second less than \<open>debounceDelay\<close> after the last
  emission: the second is not shown on arrival, so the two arrivals show at most one
  display (the first update's, when it was not throttled itself); a timeout the first
  update had set is cleared; the one pending timeout carries the second update's text,
  does nothing before it is due, \<open>debounceDelay\<close> after the second arrival, and then
  shows that text.
\<close>

theorem debounce_latest_wins:
  assumes "debounceAndShowTranscript t1 entry a False = (d1, e1)"
    and "debounceAndShowTranscript t2 (Some d1) b False = (d2, e2)"
    and "t2 - lastSentTime d1 < debounceDelay"
  shows "e2 = []
    \<and> (e1 = [] \<or> e1 = [showTranscriptsToUser a False])
    \<and> length (e1 @ e2) \<le> 1
    \<and> ((case entry of None \<Rightarrow> 0 | Some d \<Rightarrow> lastSentTime d) \<le> t1 \<longrightarrow>
          debounce_timer_fired t2 d1 = (d1, []))
    \<and> lastSentTime d2 = lastSentTime d1
    \<and> timer d2 = Some (t2 + debounceDelay, b)
    \<and> debounce_timer_fired now d2
        = (if now < t2 + debounceDelay then (d2, [])
           else (d2\<lparr>lastSentTime := now, timer := None\<rparr>, [showTranscriptsToUser b False]))"
proof -
  from assms(2,3) have second: "e2 = []" "d2 = d1\<lparr>timer := Some (t2 + debounceDelay, b)\<rparr>"
    by (auto simp: debounceAndShowTranscript_def Let_def split: if_splits)
  from assms(1) have first: "e1 = [] \<or> e1 = [showTranscriptsToUser a False]"
    by (auto simp: debounceAndShowTranscript_def Let_def split: if_splits)
  have between: "debounce_timer_fired t2 d1 = (d1, [])"
    if "(case entry of None \<Rightarrow> 0 | Some d \<Rightarrow> lastSentTime d) \<le> t1"
    using that assms(1,3)
    by (auto simp: debounceAndShowTranscript_def debounce_timer_fired_def Let_def
          split: if_splits option.splits)
  from first second between show ?thesis
    by (auto simp: debounce_timer_fired_def)
qed

theorem debounce_latest_wins_witness:
  "debounceAndShowTranscript 1000 (Some \<lparr>lastSentTime = 0, timer = None\<rparr>) (ascii ''he'') False
     = (\<lparr>lastSentTime = 1000, timer = None\<rparr>, [ShowTextWall (ascii ''he'') None])
   \<and> debounceAndShowTranscript 1100 (Some \<lparr>lastSentTime = 1000, timer = None\<rparr>) (ascii ''hello'') False
     = (\<lparr>lastSentTime = 1000, timer = Some (1500, ascii ''hello'')\<rparr>, [])
   \<and> 1100 - lastSentTime \<lparr>lastSentTime = 1000, timer = None\<rparr> < debounceDelay
   \<and> lastSentTime \<lparr>lastSentTime = 0, timer = None\<rparr> \<le> 1000
   \<and> debounce_timer_fired 1100 \<lparr>lastSentTime = 1000, timer = None\<rparr>
     = (\<lparr>lastSentTime = 1000, timer = None\<rparr>, [])
   \<and> debounce_timer_fired 1499 \<lparr>lastSentTime = 1000, timer = Some (1500, ascii ''hello'')\<rparr>
     = (\<lparr>lastSentTime = 1000, timer = Some (1500, ascii ''hello'')\<rparr>, [])
   \<and> debounce_timer_fired 1500 \<lparr>lastSentTime = 1000, timer = Some (1500, ascii ''hello'')\<rparr>
     = (\<lparr>lastSentTime = 1500, timer = None\<rparr>, [ShowTextWall (ascii ''hello'') None])"
proof -
  have clean: "cleanTranscriptText (ascii ''he'') = ascii ''he''"
    "cleanTranscriptText (ascii ''hello'') = ascii ''hello''"
    by (simp_all add: cleanTranscriptText_def is_lead_punct_def string_eval)
  have h1: "debounceAndShowTranscript 1000 (Some \<lparr>lastSentTime = 0, timer = None\<rparr>) (ascii ''he'') False
     = (\<lparr>lastSentTime = 1000, timer = None\<rparr>, [ShowTextWall (ascii ''he'') None])"
    by (simp add: debounceAndShowTranscript_def debounceDelay_def showTranscriptsToUser_def clean)
  have h2: "debounceAndShowTranscript 1100 (Some \<lparr>lastSentTime = 1000, timer = None\<rparr>) (ascii ''hello'') False
     = (\<lparr>lastSentTime = 1000, timer = Some (1500, ascii ''hello'')\<rparr>, [])"
    by (simp add: debounceAndShowTranscript_def debounceDelay_def)
  have h3: "1100 - lastSentTime \<lparr>lastSentTime = 1000, timer = None\<rparr> < debounceDelay"
    by (simp add: debounceDelay_def)
  from debounce_latest_wins [OF h1 h2 h3, of 1499] debounce_latest_wins [OF h1 h2 h3, of 1500]
    h1 h2 h3
  show ?thesis by (simp add: showTranscriptsToUser_def clean debounceDelay_def)
qed

text \<open>
  C6, amended. When the inactivity timeout fires and the user has a processor, the history
  and the pending partial text become empty, and the display receives one update whose
  text is the empty string, for 1000 ms.
\<close>

theorem inactivity_clears:
  "inactivity_timer_fired (Some p) = (Some (clear p), [ShowTextWall [] (Some 1000)])
   \<and> finalTranscriptHistory (clear p) = []
   \<and> partialText (clear p) = []
   \<and> inactivity_timer_fired None = (None, [])"
  by (simp add: inactivity_timer_fired_def clear_def)

text \<open>
  C6 as stated fails: the update is the empty string, which is one empty line, not the
  \<open>maxLines\<close> lines of a blank display (two newlines for \<open>maxLines = 3\<close>).
\<close>

theorem inactivity_blank_lines_counterexample:
  "inactivity_timer_fired (Some (new_processor 30 3 30 False))
     = (Some (clear (new_processor 30 3 30 False)), [ShowTextWall [] (Some 1000)])
   \<and> maxLines (new_processor 30 3 30 False) = 3
   \<and> join [newline] (replicate 3 []) = [newline, newline]
   \<and> [] \<noteq> join [newline] (replicate 3 [])
   \<and> split_on newline [] = [[]]
   \<and> length (split_on newline []) \<noteq> maxLines (new_processor 30 3 30 False)"
  by (simp add: inactivity_timer_fired_def new_processor_def replicate_num)


section \<open>Settings changes\<close>

text \<open>
  What \<open>applySettings\<close> does when it returns: after a language change the new processor
  starts empty and a blank display is shown as a final update; with the language
  unchanged and not Chinese (Hanzi), the previous history is replayed into the new
  processor and the recomputed display is shown as a final update.
\<close>

lemma join_empty_lines: "join [c] (replicate (Suc k) []) = replicate k c"
  by (induction k) simp_all

lemma trim_whitespace_only:
  assumes "\<forall>c\<in>set s. is_ws c"
  shows "trim s = []"
proof -
  from assms have d: "dropWhile is_ws s = []" by (simp only: dropWhile_eq_Nil_conv)
  show ?thesis unfolding trim_def d by simp
qed

lemma blank_display_cleaned:
  "showTranscriptsToUser (join [newline] (fit_lines n [])) isFinal
     = ShowTextWall [] (if isFinal then Some 20000 else None)"
proof -
  have nl: "\<not> is_lead_punct newline" "is_ws newline"
    by (simp_all add: is_lead_punct_def is_ws_def newline_def)
  have "cleanTranscriptText (join [newline] (fit_lines n [])) = []"
  proof (cases n)
    case 0
    then show ?thesis by (simp add: fit_lines_eq cleanTranscriptText_def trim_empty)
  next
    case (Suc k)
    have "fit_lines n [] = replicate (Suc k) []" using Suc by (simp add: fit_lines_eq)
    then have j: "join [newline] (fit_lines n []) = replicate k newline"
      by (simp only: join_empty_lines)
    have "dropWhile is_lead_punct (replicate k newline) = replicate k newline"
      using nl(1) by (cases k) simp_all
    moreover have "trim (replicate k newline) = []"
      using nl(2) by (intro trim_whitespace_only) simp
    ultimately show ?thesis by (simp add: j cleanTranscriptText_def)
  qed
  then show ?thesis by (simp add: showTranscriptsToUser_def)
qed

lemma applySettings_language_changed:
  assumes "userActiveLanguages st userId = Some prev"
    and "prev \<noteq> []" and "prev \<noteq> ascii ''none''" and "prev \<noteq> language"
  shows "\<exists>np. applySettings seg st userId language line_width number_of_lines
      = Some (Inr (st\<lparr>userActiveLanguages := (userActiveLanguages st)(userId \<mapsto> language),
                      userTranscriptProcessors := (userTranscriptProcessors st)(userId \<mapsto> np)\<rparr>,
                   [ShowTextWall [] (Some 20000)]))
    \<and> finalTranscriptHistory np = [] \<and> partialText np = []
    \<and> isChinese np = (language = ascii ''Chinese (Hanzi)'')"
proof -
  let ?np = "new_processor (convertLineWidth line_width (language = ascii ''Chinese (Hanzi)''))
      (if number_of_lines < 1 then 3 else nat number_of_lines) MAX_FINAL_TRANSCRIPTS
      (language = ascii ''Chinese (Hanzi)'')"
  have run: "processString seg ?np (Str []) True
      = Some (Inr (?np\<lparr>partialText := [], currentDisplayLines := fit_lines (maxLines ?np) []\<rparr>,
                   join [newline] (fit_lines (maxLines ?np) [])))"
    by (simp add: processString_empty_final new_processor_def getCombinedTranscriptHistory_def)
  have "applySettings seg st userId language line_width number_of_lines
      = Some (Inr (st\<lparr>userActiveLanguages := (userActiveLanguages st)(userId \<mapsto> language),
                      userTranscriptProcessors := (userTranscriptProcessors st)
                        (userId \<mapsto> ?np\<lparr>partialText := [],
                                      currentDisplayLines := fit_lines (maxLines ?np) []\<rparr>)\<rparr>,
                   [ShowTextWall [] (Some 20000)]))"
    unfolding applySettings_def Let_def
    using assms by (cases "userTranscriptProcessors st userId") (simp_all add: run blank_display_cleaned)
  then show ?thesis
    by (intro exI[of _ "?np\<lparr>partialText := [],
          currentDisplayLines := fit_lines (maxLines ?np) []\<rparr>"])
       (simp add: new_processor_def)
qed

lemma foldl_add_history_cong:
  assumes "finalTranscriptHistory a = finalTranscriptHistory b"
    and "maxFinalTranscripts a = maxFinalTranscripts b"
  shows "finalTranscriptHistory (foldl addToTranscriptHistory a us)
      = finalTranscriptHistory (foldl addToTranscriptHistory b us)"
  using assms
proof (induction us arbitrary: a b)
  case Nil
  then show ?case by simp
next
  case (Cons u us)
  have "finalTranscriptHistory (addToTranscriptHistory a u)
      = finalTranscriptHistory (addToTranscriptHistory b u)"
    using Cons.prems by (simp add: addToTranscriptHistory_def)
  moreover have "maxFinalTranscripts (addToTranscriptHistory a u)
      = maxFinalTranscripts (addToTranscriptHistory b u)"
    using Cons.prems by simp
  ultimately have "finalTranscriptHistory (foldl addToTranscriptHistory (addToTranscriptHistory a u) us)
      = finalTranscriptHistory (foldl addToTranscriptHistory (addToTranscriptHistory b u) us)"
    by (rule Cons.IH)
  then show ?case by simp
qed

lemma replay_whitespace:
  assumes "\<not> isChinese p" and "0 < maxCharsPerLine p"
  shows "\<exists>p'. replay seg p ts = Some (Inr p')
    \<and> finalTranscriptHistory p' = finalTranscriptHistory (foldl addToTranscriptHistory p (map trim ts))
    \<and> isChinese p' = isChinese p \<and> maxCharsPerLine p' = maxCharsPerLine p
    \<and> maxLines p' = maxLines p \<and> maxFinalTranscripts p' = maxFinalTranscripts p"
  using assms
proof (induction ts arbitrary: p)
  case Nil
  then show ?case by simp
next
  case (Cons t ts)
  from processString_total[OF Cons.prems, of "Str t" seg True]
  obtain q s where q: "processString seg p (Str t) True = Some (Inr (q, s))" by auto
  note fr = processString_frame[OF q]
  have hq: "finalTranscriptHistory q = finalTranscriptHistory (addToTranscriptHistory p (trim t))"
    using q by (rule processString_final_history)
  from Cons.prems fr have "\<not> isChinese q" "0 < maxCharsPerLine q" by simp_all
  from Cons.IH[OF this] obtain p' where p': "replay seg q ts = Some (Inr p')"
    "finalTranscriptHistory p' = finalTranscriptHistory (foldl addToTranscriptHistory q (map trim ts))"
    "isChinese p' = isChinese q" "maxCharsPerLine p' = maxCharsPerLine q"
    "maxLines p' = maxLines q" "maxFinalTranscripts p' = maxFinalTranscripts q" by blast
  have "finalTranscriptHistory (foldl addToTranscriptHistory q (map trim ts))
      = finalTranscriptHistory (foldl addToTranscriptHistory (addToTranscriptHistory p (trim t)) (map trim ts))"
    using hq fr(4) by (intro foldl_add_history_cong) simp_all
  with q p' fr show ?case by simp
qed


lemma convertLineWidth_pos: "0 < convertLineWidth width isHanzi"
  by (simp add: convertLineWidth_def Let_def)

lemma applySettings_same_language:
  assumes "language \<noteq> ascii ''Chinese (Hanzi)''"
    and "userActiveLanguages st userId = Some language"
    and "userTranscriptProcessors st userId = Some previous"
  shows "\<exists>np out. applySettings seg st userId language line_width number_of_lines
      = Some (Inr (st\<lparr>userActiveLanguages := (userActiveLanguages st)(userId \<mapsto> language),
                      userTranscriptProcessors := (userTranscriptProcessors st)(userId \<mapsto> np)\<rparr>,
                   [showTranscriptsToUser out True]))
    \<and> finalTranscriptHistory np
        = finalTranscriptHistory
            (foldl addToTranscriptHistory
               (new_processor (convertLineWidth line_width False)
                  (if number_of_lines < 1 then 3 else nat number_of_lines) MAX_FINAL_TRANSCRIPTS False)
               (map trim (finalTranscriptHistory previous)))
    \<and> maxCharsPerLine np = convertLineWidth line_width False
    \<and> maxLines np = (if number_of_lines < 1 then 3 else nat number_of_lines)"
proof -
  let ?n = "new_processor (convertLineWidth line_width False)
      (if number_of_lines < 1 then 3 else nat number_of_lines) MAX_FINAL_TRANSCRIPTS False"
  have n: "\<not> isChinese ?n" "0 < maxCharsPerLine ?n"
    by (simp_all add: new_processor_def convertLineWidth_pos)
  from replay_whitespace[OF n, of seg "finalTranscriptHistory previous"]
  obtain r where r: "replay seg ?n (finalTranscriptHistory previous) = Some (Inr r)"
    "finalTranscriptHistory r = finalTranscriptHistory
        (foldl addToTranscriptHistory ?n (map trim (finalTranscriptHistory previous)))"
    "isChinese r = isChinese ?n" "maxCharsPerLine r = maxCharsPerLine ?n"
    "maxLines r = maxLines ?n" by blast
  with n have "\<not> isChinese r" "0 < maxCharsPerLine r" by simp_all
  from processString_total[OF this, of "Str []" seg True]
  obtain np out where np: "processString seg r (Str []) True = Some (Inr (np, out))" by auto
  have "finalTranscriptHistory np = finalTranscriptHistory (addToTranscriptHistory r (trim []))"
    using np by (rule processString_final_history)
  then have h: "finalTranscriptHistory np = finalTranscriptHistory r"
    by (simp add: trim_empty addToTranscriptHistory_def)
  note fr = processString_frame[OF np]
  have "applySettings seg st userId language line_width number_of_lines
      = Some (Inr (st\<lparr>userActiveLanguages := (userActiveLanguages st)(userId \<mapsto> language),
                      userTranscriptProcessors := (userTranscriptProcessors st)(userId \<mapsto> np)\<rparr>,
                   [showTranscriptsToUser out True]))"
    unfolding applySettings_def Let_def using assms r(1) np by simp
  with h r fr show ?thesis
    by (intro exI[of _ np] exI[of _ out]) (simp add: new_processor_def)
qed

lemma convertLineWidth_presets:
  "convertLineWidth (ascii ''Wide'') True = 18"
  "convertLineWidth (ascii ''Narrow'') True = 10"
  by (simp_all add: convertLineWidth_def toLowerCase_def ascii_def)

lemma hanzi_not_none:
  "ascii ''Chinese (Hanzi)'' \<noteq> ascii ''none''" "ascii ''Chinese (Hanzi)'' \<noteq> []"
  by (simp_all add: ascii_def)

text \<open>
  C7. A settings change can fail to show anything. A user with the language
  Chinese (Hanzi) and the width Wide (18) has a processor created by \<open>applySettings\<close>;
  a final transcript of 16 code units that starts with a 13-letter word fits a line and is
  stored. Changing the width to Narrow (10) replays it through the new processor, where
  \<open>wrapText\<close> never returns: \<open>applySettings\<close> neither installs the history nor shows the
  display.
\<close>

theorem applySettings_narrower_hanzi_hangs:
  "applySettings cut_runs \<lparr>userTranscriptProcessors = Map.empty, userActiveLanguages = Map.empty\<rparr>
      (ascii ''u1'') (ascii ''Chinese (Hanzi)'') (ascii ''Wide'') 3
     = Some (Inr (\<lparr>userTranscriptProcessors =
                      [ascii ''u1'' \<mapsto> (new_processor 18 3 30 True)\<lparr>currentDisplayLines := [[], [], []]\<rparr>],
                    userActiveLanguages = [ascii ''u1'' \<mapsto> ascii ''Chinese (Hanzi)'']\<rparr>,
                  [ShowTextWall [] (Some 20000)]))
   \<and> processString cut_runs ((new_processor 18 3 30 True)\<lparr>currentDisplayLines := [[], [], []]\<rparr>)
        (Str (ascii ''international'' @ [0x8FD9, 0x4E2A, 0x8BCD])) True
     = Some (Inr ((new_processor 18 3 30 True)
                    \<lparr>finalTranscriptHistory := [ascii ''international'' @ [0x8FD9, 0x4E2A, 0x8BCD]],
                      currentDisplayLines := [ascii ''international'' @ [0x8FD9, 0x4E2A, 0x8BCD], [], []]\<rparr>,
                  ascii ''international'' @ [0x8FD9, 0x4E2A, 0x8BCD] @ [newline, newline]))
   \<and> applySettings cut_runs
        \<lparr>userTranscriptProcessors =
           [ascii ''u1'' \<mapsto> (new_processor 18 3 30 True)
                    \<lparr>finalTranscriptHistory := [ascii ''international'' @ [0x8FD9, 0x4E2A, 0x8BCD]],
                      currentDisplayLines := [ascii ''international'' @ [0x8FD9, 0x4E2A, 0x8BCD], [], []]\<rparr>],
         userActiveLanguages = [ascii ''u1'' \<mapsto> ascii ''Chinese (Hanzi)'']\<rparr>
        (ascii ''u1'') (ascii ''Chinese (Hanzi)'') (ascii ''Narrow'') 3
     = None"
proof -
  let ?t = "ascii ''international'' @ [0x8FD9, 0x4E2A, 0x8BCD]"
  have first: "applySettings cut_runs \<lparr>userTranscriptProcessors = Map.empty, userActiveLanguages = Map.empty\<rparr>
      (ascii ''u1'') (ascii ''Chinese (Hanzi)'') (ascii ''Wide'') 3
     = Some (Inr (\<lparr>userTranscriptProcessors =
                      [ascii ''u1'' \<mapsto> (new_processor 18 3 30 True)\<lparr>currentDisplayLines := [[], [], []]\<rparr>],
                    userActiveLanguages = [ascii ''u1'' \<mapsto> ascii ''Chinese (Hanzi)'']\<rparr>,
                  [ShowTextWall [] (Some 20000)]))"
    by (simp add: applySettings_def Let_def convertLineWidth_presets MAX_FINAL_TRANSCRIPTS_def
        processString_empty_final new_processor_def getCombinedTranscriptHistory_def
        fit_lines_eq replicate_num showTranscriptsToUser_def cleanTranscriptText_def
        is_lead_punct_def trim_def is_ws_def newline_def)
  have second: "processString cut_runs ((new_processor 18 3 30 True)\<lparr>currentDisplayLines := [[], [], []]\<rparr>)
        (Str ?t) True
     = Some (Inr ((new_processor 18 3 30 True)
                    \<lparr>finalTranscriptHistory := [?t], currentDisplayLines := [?t, [], []]\<rparr>,
                  ?t @ [newline, newline]))"
    by (simp add: string_eval wrap_eval processor_eval)
  have h2: "isChineseText ?t" by (simp add: isChineseText_def ascii_def)
  have h3: "trim ?t = ?t" by (simp add: string_eval)
  have h4: "cut_runs ?t = ascii ''international'' # [0x8FD9] # cut_runs [0x4E2A, 0x8BCD]"
    using cut_runs_international[of "[0x4E2A, 0x8BCD]"] by simp
  have h5: "10 < length (ascii ''international'')" by (simp add: ascii_def)
  have h6: "10 < length ?t" by (simp add: ascii_def)
  have "wrapText_loop cut_runs True 10 [] ?t = None"
    using h2 h3 h6 h4 h5 by (rule wrapText_loop_first_word_too_long(2))
  then have wrap: "wrapText cut_runs True ?t 10 = None" by (simp add: wrapText_def)
  have tne: "?t \<noteq> []" by (simp add: ascii_def)
  have "processString cut_runs (new_processor 10 3 30 True) (Str ?t) True = None"
    using wrap h3 tne
    by (simp add: processString_final_cases text_of_def addToTranscriptHistory_def
        new_processor_def getCombinedTranscriptHistory_def shift_excess_drop)
  then have third: "applySettings cut_runs
        \<lparr>userTranscriptProcessors =
           [ascii ''u1'' \<mapsto> (new_processor 18 3 30 True)
                    \<lparr>finalTranscriptHistory := [?t], currentDisplayLines := [?t, [], []]\<rparr>],
         userActiveLanguages = [ascii ''u1'' \<mapsto> ascii ''Chinese (Hanzi)'']\<rparr>
        (ascii ''u1'') (ascii ''Chinese (Hanzi)'') (ascii ''Narrow'') 3
     = None"
    by (simp add: applySettings_def Let_def convertLineWidth_presets MAX_FINAL_TRANSCRIPTS_def
        hanzi_not_none)
  from first second third show ?thesis by simp
qed

end
